theory Spec2Isabelle
  imports Main "HOL-Library.Sublist"
begin

section \<open>Python strings\<close>

text \<open>
  The pipeline works on Python \<open>str\<close> values, sequences of code points. A \<open>string\<close>
  here is a \<open>char list\<close> whose characters are the code points below 256, so \<open>length\<close>
  counts what Python's \<open>len\<close> counts. The character classes below are Python's own
  classes restricted to that range.
\<close>

text \<open>
  The exceptions of the program as values: the index error of a list, the failure of a
  request to the completion service (the request itself, or the reading of its answer), and
  the error of the database with its message.
\<close>

datatype exn = IndexError | RequestError | DatabaseError string

definition isspace :: "char \<Rightarrow> bool" where
  \<comment> \<open>\<open>str.isspace\<close>, which is also what \<open>str.strip()\<close> removes and what \<open>\s\<close> matches:
      TAB, LF, VT, FF, CR, FS, GS, RS, US, space, NEL and no-break space.\<close>
  "isspace c = (let n = (of_char c :: nat)
                in (9 \<le> n \<and> n \<le> 13) \<or> (28 \<le> n \<and> n \<le> 32) \<or> n = 133 \<or> n = 160)"

definition islinebreak :: "char \<Rightarrow> bool" where
  \<comment> \<open>the line boundaries of \<open>str.splitlines\<close>: LF, VT, FF, CR, FS, GS, RS and NEL\<close>
  "islinebreak c = (let n = (of_char c :: nat)
                    in (10 \<le> n \<and> n \<le> 13) \<or> (28 \<le> n \<and> n \<le> 30) \<or> n = 133)"

definition isident :: "char \<Rightarrow> bool" where
  \<comment> \<open>the character class \<open>[a-zA-Z0-9_]\<close>\<close>
  "isident c = (let n = (of_char c :: nat)
                in (97 \<le> n \<and> n \<le> 122) \<or> (65 \<le> n \<and> n \<le> 90) \<or> (48 \<le> n \<and> n \<le> 57) \<or> n = 95)"

definition lower_char :: "char \<Rightarrow> char" where
  \<comment> \<open>the lower-case mapping: \<open>A\<close>--\<open>Z\<close> and the accented capitals 192--222
      (the multiplication sign 215 apart) move up by 32\<close>
  "lower_char c = (let n = (of_char c :: nat)
                   in if (65 \<le> n \<and> n \<le> 90) \<or> (192 \<le> n \<and> n \<le> 222 \<and> n \<noteq> 215)
                      then char_of (n + 32) else c)"

definition str_lower :: "string \<Rightarrow> string" where
  "str_lower s = map lower_char s"

definition str_strip :: "string \<Rightarrow> string" where
  \<comment> \<open>\<open>s.strip()\<close>\<close>
  "str_strip s = rev (dropWhile isspace (rev (dropWhile isspace s)))"

definition str_startswith :: "string \<Rightarrow> string list \<Rightarrow> bool" where
  \<comment> \<open>\<open>s.startswith(tuple)\<close>: some member of the tuple is a prefix of \<open>s\<close>\<close>
  "str_startswith s ps = list_ex (\<lambda>p. prefix p s) ps"

fun str_split :: "char \<Rightarrow> string \<Rightarrow> string list" where
  \<comment> \<open>\<open>s.split(d)\<close> for a one-character separator. The result is never empty, so the
      first branch of the \<open>case\<close> is never taken.\<close>
  "str_split d [] = [[]]"
| "str_split d (c # cs) =
     (if c = d then [] # str_split d cs
      else (case str_split d cs of [] \<Rightarrow> [[c]] | p # ps \<Rightarrow> (c # p) # ps))"

definition index0 :: "'a list \<Rightarrow> exn + 'a" where
  \<comment> \<open>\<open>xs[0]\<close>, which raises on an empty list\<close>
  "index0 xs = (case xs of [] \<Rightarrow> Inl IndexError | x # _ \<Rightarrow> Inr x)"

fun str_join :: "string \<Rightarrow> string list \<Rightarrow> string" where
  \<comment> \<open>\<open>sep.join(xs)\<close>\<close>
  "str_join sep [] = []"
| "str_join sep [x] = x"
| "str_join sep (x # y # ys) = x @ sep @ str_join sep (y # ys)"

fun skip_break :: "string \<Rightarrow> string" where
  \<comment> \<open>steps over the line boundary a text starts with; the pair CR LF is one boundary\<close>
  "skip_break [] = []"
| "skip_break [b] = []"
| "skip_break (b # n # r) = (if b = CHR 0x0D \<and> n = CHR 0x0A then r else n # r)"

lemma length_skip_break: "length (skip_break s) \<le> length s - 1"
  by (induction s rule: skip_break.induct) auto

function str_splitlines :: "string \<Rightarrow> string list" where
  \<comment> \<open>\<open>s.splitlines()\<close>: while text is left, a line runs up to the next line boundary
      and the scan goes on after that boundary; no empty line follows a boundary that
      ends the text\<close>
  "str_splitlines [] = []"
| "str_splitlines (c # cs) =
     (let line = takeWhile (\<lambda>x. \<not> islinebreak x) (c # cs);
          rest = dropWhile (\<lambda>x. \<not> islinebreak x) (c # cs)
      in line # str_splitlines (skip_break rest))"
  by pat_completeness auto
termination
proof (relation "measure length", goal_cases)
  case 1
  show ?case by simp
next
  case (2 c cs line rest)
  have "length (skip_break rest) \<le> length rest - 1"
    by (rule length_skip_break)
  moreover have "length rest \<le> length (c # cs)"
    unfolding 2 by (rule length_dropWhile_le)
  ultimately show ?case by simp
qed

section \<open>The regular expressions of \<open>clean_sql\<close>\<close>

subsection \<open>The fenced block\<close>

fun find_fence :: "string \<Rightarrow> string option" where
  \<comment> \<open>the text after the first \<open>```\<close> of \<open>s\<close>, if there is one: where the lazy \<open>.*?```\<close>
      stops (with DOTALL the dot takes every character)\<close>
  "find_fence [] = None"
| "find_fence (c # cs) =
     (if prefix ''```'' (c # cs) then Some (drop 3 (c # cs)) else find_fence cs)"

definition match_fence :: "string \<Rightarrow> string option" where
  \<comment> \<open>a match of \<open>```.*?```\<close> at the start of \<open>s\<close>: what follows the match\<close>
  "match_fence s = (if prefix ''```'' s then find_fence (drop 3 s) else None)"

lemma find_fence_length: "find_fence s = Some r \<Longrightarrow> length r < length s"
  by (induction s) (auto split: if_splits)

lemma match_fence_length: "match_fence s = Some r \<Longrightarrow> length r < length s"
  by (auto simp: match_fence_def split: if_splits dest!: find_fence_length)

function re_sub_fence :: "string \<Rightarrow> string" where
  \<comment> \<open>\<open>re.sub(r"```.*?```", "", s, flags=re.DOTALL)\<close>: from the left, a match is
      replaced by nothing and the scan goes on after it; a character where no match
      starts is copied\<close>
  "re_sub_fence [] = []"
| "re_sub_fence (c # cs) =
     (case match_fence (c # cs) of
        Some rest \<Rightarrow> re_sub_fence rest
      | None \<Rightarrow> c # re_sub_fence cs)"
  by pat_completeness auto
termination
  by (relation "measure length") (auto dest: match_fence_length)

subsection \<open>The doubled ORDER BY\<close>

fun match_icase :: "string \<Rightarrow> string \<Rightarrow> string option" where
  \<comment> \<open>a literal (given in lower case) matched at the start of the text under IGNORECASE:
      what follows the match\<close>
  "match_icase [] s = Some s"
| "match_icase (p # ps) [] = None"
| "match_icase (p # ps) (c # cs) = (if lower_char c = p then match_icase ps cs else None)"

definition match_order_by :: "string \<Rightarrow> string option" where
  \<comment> \<open>a match of \<open>ORDER BY\s+ORDER BY\<close> (IGNORECASE) at the start of \<open>s\<close>: what follows
      the match. The greedy \<open>\s+\<close> takes the whole run of white space, since the
      character after it must be a letter.\<close>
  "match_order_by s =
     (case match_icase ''order by'' s of
        None \<Rightarrow> None
      | Some r \<Rightarrow> (case r of
                     [] \<Rightarrow> None
                   | w # ws \<Rightarrow> if isspace w
                              then match_icase ''order by'' (dropWhile isspace ws)
                              else None))"

lemma match_icase_length: "match_icase p s = Some r \<Longrightarrow> length r + length p = length s"
  by (induction p s rule: match_icase.induct) (auto split: if_splits)

lemma match_order_by_length:
  assumes "match_order_by s = Some r"
  shows "length r + 17 \<le> length s"
proof -
  from assms obtain w ws where a: "match_icase ''order by'' s = Some (w # ws)"
    and b: "match_icase ''order by'' (dropWhile isspace ws) = Some r"
    by (auto simp: match_order_by_def split: option.splits list.splits if_splits)
  from match_icase_length [OF a] have "length ws + 9 = length s" by simp
  moreover from match_icase_length [OF b] have "length r + 8 = length (dropWhile isspace ws)"
    by simp
  moreover have "length (dropWhile isspace ws) \<le> length ws"
    by (rule length_dropWhile_le)
  ultimately show ?thesis by arith
qed

function re_sub_order_by :: "string \<Rightarrow> string" where
  \<comment> \<open>\<open>re.sub(r"ORDER BY\s+ORDER BY", "ORDER BY", s, flags=re.IGNORECASE)\<close>\<close>
  "re_sub_order_by [] = []"
| "re_sub_order_by (c # cs) =
     (case match_order_by (c # cs) of
        Some rest \<Rightarrow> ''ORDER BY'' @ re_sub_order_by rest
      | None \<Rightarrow> c # re_sub_order_by cs)"
  by pat_completeness auto
termination
  by (relation "measure length") (auto dest: match_order_by_length)

subsection \<open>The bare identifier list\<close>

function ident_items :: "string \<Rightarrow> bool" where
  \<comment> \<open>\<open>(,\s*[a-zA-Z0-9_]+)*\s*$\<close> on the rest of the line: a comma opens one more item,
      which must hold an identifier; otherwise only white space may follow\<close>
  "ident_items [] = True"
| "ident_items (c # cs) =
     (if c = CHR '','' then
        (let item = dropWhile isspace cs
         in takeWhile isident item \<noteq> [] \<and> ident_items (dropWhile isident item))
      else dropWhile isspace (c # cs) = [])"
  by pat_completeness auto
termination
proof (relation "measure length", goal_cases)
  case 1
  show ?case by simp
next
  case (2 c cs item)
  have "length (dropWhile isident item) \<le> length item"
    by (rule length_dropWhile_le)
  moreover have "length item \<le> length cs"
    unfolding 2 by (rule length_dropWhile_le)
  ultimately show ?case by simp
qed

definition bad_line :: "string \<Rightarrow> bool" where
  \<comment> \<open>\<open>bad_line.match(s)\<close> for \<open>^[a-zA-Z0-9_]+(,\s*[a-zA-Z0-9_]+)*\s*$\<close>: the classes of
      identifier characters, comma and white space are disjoint, so the greedy reading
      is the only one\<close>
  "bad_line s = (takeWhile isident s \<noteq> [] \<and> ident_items (dropWhile isident s))"

section \<open>\<open>clean_sql\<close>\<close>

definition sql_keywords :: "string list" where
  "sql_keywords = [''select'', ''from'', ''where'', ''group'', ''order'', ''limit'']"

fun line_loop :: "string list \<Rightarrow> string list \<Rightarrow> string list" where
  \<comment> \<open>the \<open>for line in sql.splitlines()\<close> loop, with the list \<open>good\<close> it appends to\<close>
  "line_loop good [] = good"
| "line_loop good (line # rest) =
     (let stripped = str_strip line
      in if str_startswith (str_lower stripped) sql_keywords then line_loop (good @ [line]) rest
         else if bad_line stripped then line_loop good rest
         else line_loop (good @ [line]) rest)"

definition first_statement :: "string \<Rightarrow> exn + string" where
  \<comment> \<open>\<open>if ";" in sql: sql = sql.split(";")[0] + ";"\<close>\<close>
  "first_statement sql =
     (if CHR '';'' \<in> set sql
      then (case index0 (str_split (CHR '';'') sql) of
              Inl e \<Rightarrow> Inl e
            | Inr p \<Rightarrow> Inr (p @ '';''))
      else Inr sql)"

definition keeps_line :: "string \<Rightarrow> bool" where
  \<comment> \<open>the lines the loop appends to \<open>good\<close>: its first and its last branch\<close>
  "keeps_line line =
     (str_startswith (str_lower (str_strip line)) sql_keywords \<or> \<not> bad_line (str_strip line))"

definition filter_lines :: "string \<Rightarrow> string" where
  \<comment> \<open>the loop over \<open>sql.splitlines()\<close> and \<open>"\n".join(good)\<close>\<close>
  "filter_lines sql = str_join ''\<newline>'' (line_loop [] (str_splitlines sql))"

definition clean_sql :: "string \<Rightarrow> exn + string" where
  "clean_sql sql =
     (case first_statement (re_sub_fence sql) of
        Inl e \<Rightarrow> Inl e
      | Inr stmt \<Rightarrow> Inr (str_strip (re_sub_order_by (filter_lines (str_strip stmt)))))"

subsection \<open>The line filter in the words of its description\<close>




section \<open>The pipeline around \<open>clean_sql\<close>\<close>












subsection \<open>The fields of a plan\<close>








subsection \<open>A service that answers with one fixed plan\<close>





section \<open>Notions for the proofs\<close>

text \<open>
  None of these is part of the program. They name what the proofs follow through the steps
  of \<open>clean_sql\<close>: that every line of a text would be kept by the loop, that its lines
  are separated by line feeds only, how far the pattern of the identifier list has been
  matched, and how many fences a text holds.
\<close>

definition all_kept :: "string \<Rightarrow> bool" where
  \<comment> \<open>every line of the text is one that the loop keeps\<close>
  "all_kept s = list_all keeps_line (str_splitlines s)"

definition lf_only :: "string \<Rightarrow> bool" where
  \<comment> \<open>the line feed is the only line boundary in the text\<close>
  "lf_only s = (\<forall>c\<in>set s. islinebreak c \<longrightarrow> c = CHR ''\<newline>'')"

abbreviation (input) nb :: "char \<Rightarrow> bool" where
  "nb \<equiv> \<lambda>x. \<not> islinebreak x"

definition in_ident :: "string \<Rightarrow> bool" where
  \<comment> \<open>\<open>bad_line\<close> read as an automaton: the rest of the line is accepted from
      inside an identifier\<close>
  "in_ident s = ident_items (dropWhile isident s)"

definition after_comma :: "string \<Rightarrow> bool" where
  \<comment> \<open>the rest of the line is accepted after a comma\<close>
  "after_comma s =
     (takeWhile isident (dropWhile isspace s) \<noteq> [] \<and>
      ident_items (dropWhile isident (dropWhile isspace s)))"

fun count_fences :: "nat \<Rightarrow> string \<Rightarrow> nat" where
  \<comment> \<open>the number of fences \<open>```\<close> met from left to right, none overlapping another;
      \<open>k\<close> backticks have just been read\<close>
  "count_fences k [] = 0"
| "count_fences k (c # cs) =
     (if c = CHR ''`''
      then (if 2 \<le> k then Suc (count_fences 0 cs) else count_fences (Suc k) cs)
      else count_fences 0 cs)"

section \<open>Auxiliary facts\<close>

subsection \<open>The statement terminator through the steps\<close>

text \<open>
  After the truncation the text ends with its only \<open>;\<close>. The strip, the loop over the
  lines, the join and the collapse of ORDER BY leave that \<open>;\<close> where it is and bring in no
  other.
\<close>

lemma str_split_not_Nil: "str_split d s \<noteq> []"
  by (induction s) (auto split: list.splits)

lemma index0_str_split: "index0 (str_split d s) = Inr (takeWhile (\<lambda>c. c \<noteq> d) s)"
proof (induction s)
  case Nil
  show ?case by (simp add: index0_def)
next
  case (Cons c cs)
  then show ?case
    by (cases "str_split d cs") (auto simp: index0_def)
qed

lemma first_statement_eq:
  "first_statement s =
     Inr (if CHR '';'' \<in> set s then takeWhile (\<lambda>c. c \<noteq> CHR '';'') s @ '';'' else s)"
  by (simp add: first_statement_def index0_str_split)

lemma semi_not_space: "\<not> isspace (CHR '';'')" 
  by (simp add: isspace_def)

lemma semi_not_linebreak: "\<not> islinebreak (CHR '';'')"
  by (simp add: islinebreak_def)

lemma semi_not_ident: "\<not> isident (CHR '';'')"
  by (simp add: isident_def)

lemma str_strip_snoc: "\<not> isspace d \<Longrightarrow> str_strip (s @ [d]) = dropWhile isspace s @ [d]"
  by (simp add: str_strip_def dropWhile_append3)

lemma set_str_strip: "set (str_strip s) \<subseteq> set s"
  by (auto simp: str_strip_def dest!: set_dropWhileD)

lemma set_str_join: "set (str_join sep ls) \<subseteq> set sep \<union> \<Union> (set ` set ls)"
  by (induction sep ls rule: str_join.induct) auto

lemma str_join_snoc_char: "str_join sep (ls @ [l @ [d]]) = str_join sep (ls @ [l]) @ [d]"
  by (induction sep ls rule: str_join.induct) auto

lemma match_icase_snoc:
  "lower_char d \<notin> set p \<Longrightarrow>
   match_icase p (s @ [d]) = map_option (\<lambda>r. r @ [d]) (match_icase p s)"
  by (induction p s rule: match_icase.induct) auto

lemma match_order_by_snoc:
  assumes "\<not> isspace d" and "lower_char d \<notin> set ''order by''"
  shows "match_order_by (s @ [d]) = map_option (\<lambda>r. r @ [d]) (match_order_by s)"
proof (cases "match_icase ''order by'' s")
  case None
  with assms(2) show ?thesis
    by (simp add: match_order_by_def match_icase_snoc)
next
  case (Some r)
  show ?thesis
  proof (cases r)
    case Nil
    with Some assms show ?thesis
      by (simp add: match_order_by_def match_icase_snoc)
  next
    case (Cons w ws)
    with Some assms show ?thesis
      by (simp add: match_order_by_def match_icase_snoc dropWhile_append3)
  qed
qed

lemma re_sub_order_by_snoc:
  assumes "\<not> isspace d" and "lower_char d \<notin> set ''order by''"
  shows "re_sub_order_by (s @ [d]) = re_sub_order_by s @ [d]"
proof (induction s rule: re_sub_order_by.induct)
  case 1
  have "match_order_by [d] = None"
    using match_order_by_snoc [OF assms, of "[]"] by (simp add: match_order_by_def)
  then show ?case by simp
next
  case (2 c cs)
  show ?case
  proof (cases "match_order_by (c # cs)")
    case None
    with 2 match_order_by_snoc [OF assms, of "c # cs"] show ?thesis by simp
  next
    case (Some rest)
    with 2 match_order_by_snoc [OF assms, of "c # cs"] show ?thesis by simp
  qed
qed

lemma match_icase_suffix: "match_icase p s = Some r \<Longrightarrow> suffix r s"
  by (induction p s rule: match_icase.induct) (auto split: if_splits intro: suffix_ConsI)

lemma match_order_by_suffix:
  assumes "match_order_by s = Some r"
  shows "suffix r s"
proof -
  from assms obtain w ws where a: "match_icase ''order by'' s = Some (w # ws)"
    and b: "match_icase ''order by'' (dropWhile isspace ws) = Some r"
    by (auto simp: match_order_by_def split: option.splits list.splits if_splits)
  have "suffix r (dropWhile isspace ws)" using b by (rule match_icase_suffix)
  also have "suffix (dropWhile isspace ws) ws" by (rule suffix_dropWhile)
  also have "suffix ws (w # ws)" by (simp add: suffix_ConsI)
  also have "suffix (w # ws) s" using a by (rule match_icase_suffix)
  finally show ?thesis .
qed

lemma set_re_sub_order_by: "set (re_sub_order_by s) \<subseteq> set s \<union> set ''ORDER BY''"
proof (induction s rule: re_sub_order_by.induct)
  case 1
  show ?case by simp
next
  case (2 c cs)
  show ?case
  proof (cases "match_order_by (c # cs)")
    case None
    with 2 show ?thesis by auto
  next
    case (Some rest)
    have "set rest \<subseteq> set (c # cs)"
      using match_order_by_suffix [OF Some] by (rule set_mono_suffix)
    with Some 2 show ?thesis by auto
  qed
qed

lemma line_loop_filter: "line_loop good ls = good @ filter keeps_line ls"
  by (induction ls arbitrary: good) (auto simp: keeps_line_def Let_def)

lemma ident_items_chars:
  "ident_items s \<Longrightarrow> c \<in> set s \<Longrightarrow> isident c \<or> c = CHR '','' \<or> isspace c"
proof (induction s rule: ident_items.induct)
  case 1
  then show ?case by simp
next
  case (2 d ds)
  show ?case
  proof (cases "d = CHR '',''")
    case False
    with 2(2) have "\<forall>x\<in>set (d # ds). isspace x"
      by (simp only: ident_items.simps if_False dropWhile_eq_Nil_conv)
    with 2(3) show ?thesis by blast
  next
    case True
    define item where "item = dropWhile isspace ds"
    from True 2(2) have it: "ident_items (dropWhile isident item)"
      by (simp add: item_def Let_def)
    from 2(3) have "c = d \<or> c \<in> set ds" by simp
    then show ?thesis
    proof
      assume "c = d" with True show ?thesis by simp
    next
      assume "c \<in> set ds"
      moreover have "set ds = set (takeWhile isspace ds) \<union> set item"
        unfolding item_def by (metis set_append takeWhile_dropWhile_id)
      moreover have "set item = set (takeWhile isident item) \<union> set (dropWhile isident item)"
        by (metis set_append takeWhile_dropWhile_id)
      ultimately have "c \<in> set (takeWhile isspace ds) \<or> c \<in> set (takeWhile isident item)
          \<or> c \<in> set (dropWhile isident item)"
        by blast
      then show ?thesis
      proof (elim disjE)
        assume "c \<in> set (takeWhile isspace ds)"
        then show ?thesis by (auto dest: set_takeWhileD)
      next
        assume "c \<in> set (takeWhile isident item)"
        then show ?thesis by (auto dest: set_takeWhileD)
      next
        assume "c \<in> set (dropWhile isident item)"
        then show ?thesis using 2(1) [OF True item_def it] by simp
      qed
    qed
  qed
qed

lemma bad_line_chars:
  assumes "bad_line s" and "c \<in> set s"
  shows "isident c \<or> c = CHR '','' \<or> isspace c"
proof -
  have "s = takeWhile isident s @ dropWhile isident s" by simp
  with assms(2) have "c \<in> set (takeWhile isident s) \<or> c \<in> set (dropWhile isident s)"
    by (metis Un_iff set_append)
  then show ?thesis
    using assms(1) ident_items_chars [of "dropWhile isident s" c]
    by (auto simp: bad_line_def dest: set_takeWhileD)
qed

lemma skip_break_snoc:
  "s \<noteq> [] \<Longrightarrow> d \<noteq> CHR 0x0A \<Longrightarrow> skip_break (s @ [d]) = skip_break s @ [d]"
  by (induction s rule: skip_break.induct) auto

lemma set_skip_break: "set (skip_break s) \<subseteq> set s"
  by (induction s rule: skip_break.induct) auto

lemma str_splitlines_unfold:
  "s \<noteq> [] \<Longrightarrow>
   str_splitlines s =
     takeWhile (\<lambda>x. \<not> islinebreak x) s #
     str_splitlines (skip_break (dropWhile (\<lambda>x. \<not> islinebreak x) s))"
  by (cases s) (simp_all add: Let_def)

lemma str_splitlines_snoc:
  assumes "\<not> islinebreak d"
  shows "\<exists>ls l. str_splitlines (q @ [d]) = ls @ [l @ [d]] \<and> (\<forall>x\<in>set (l # ls). set x \<subseteq> set q)"
proof (induction q rule: str_splitlines.induct)
  case 1
  from assms have "str_splitlines ([] @ [d]) = [] @ [[] @ [d]]" by simp
  then show ?case by force
next
  case (2 c cs)
  let ?nb = "\<lambda>x. \<not> islinebreak x"
  define s where "s = c # cs"
  from assms have dlf: "d \<noteq> CHR 0x0A" by (auto simp: islinebreak_def)
  have unf: "str_splitlines (s @ [d]) =
      takeWhile ?nb (s @ [d]) # str_splitlines (skip_break (dropWhile ?nb (s @ [d])))"
    by (rule str_splitlines_unfold) simp
  show ?case unfolding s_def [symmetric]
  proof (cases "\<forall>x\<in>set s. ?nb x")
    case True
    with assms have "takeWhile ?nb (s @ [d]) = s @ [d]" and "dropWhile ?nb (s @ [d]) = []"
      by simp_all
    with unf have "str_splitlines (s @ [d]) = [] @ [s @ [d]]" by simp
    then show "\<exists>ls l. str_splitlines (s @ [d]) = ls @ [l @ [d]] \<and> (\<forall>x\<in>set (l # ls). set x \<subseteq> set s)"
      by force
  next
    case False
    then obtain b where b: "b \<in> set s" "\<not> ?nb b" by blast
    then have tk: "takeWhile ?nb (s @ [d]) = takeWhile ?nb s"
      and dr: "dropWhile ?nb (s @ [d]) = dropWhile ?nb s @ [d]"
      by (simp_all add: takeWhile_append1 dropWhile_append1)
    from b have ne: "dropWhile ?nb s \<noteq> []"
      by (simp only: Not_eq_iff dropWhile_eq_Nil_conv) blast
    let ?r = "skip_break (dropWhile ?nb s)"
    from 2 [OF refl refl] obtain ls l where
      ih: "str_splitlines (?r @ [d]) = ls @ [l @ [d]]" and sub: "\<forall>x\<in>set (l # ls). set x \<subseteq> set ?r"
      unfolding s_def by blast
    have rsub: "set ?r \<subseteq> set s"
      using set_skip_break [of "dropWhile ?nb s"] set_dropWhileD [of _ ?nb s] by blast
    have "str_splitlines (s @ [d]) = takeWhile ?nb s # str_splitlines (?r @ [d])"
      using unf tk dr skip_break_snoc [OF ne dlf] by simp
    with ih have "str_splitlines (s @ [d]) = (takeWhile ?nb s # ls) @ [l @ [d]]"
      by simp
    moreover have "set (takeWhile ?nb s) \<subseteq> set s"
      by (auto dest: set_takeWhileD)
    with sub rsub have "\<forall>x\<in>set (l # takeWhile ?nb s # ls). set x \<subseteq> set s"
      by simp blast
    ultimately show "\<exists>ls l. str_splitlines (s @ [d]) = ls @ [l @ [d]] \<and> (\<forall>x\<in>set (l # ls). set x \<subseteq> set s)"
      by blast
  qed
qed

lemma set_str_splitlines: "l \<in> set (str_splitlines s) \<Longrightarrow> set l \<subseteq> set s"
proof (induction s arbitrary: l rule: str_splitlines.induct)
  case 1
  then show ?case by simp
next
  case (2 c cs)
  let ?nb = "\<lambda>x. \<not> islinebreak x"
  define s where "s = c # cs"
  from 2(2) have "l \<in> set (str_splitlines s)" by (simp add: s_def)
  then have "l = takeWhile ?nb s \<or> l \<in> set (str_splitlines (skip_break (dropWhile ?nb s)))"
    by (subst (asm) str_splitlines_unfold) (simp_all add: s_def)
  then show ?case
  proof
    assume "l = takeWhile ?nb s"
    then show ?thesis unfolding s_def [symmetric] by (auto dest: set_takeWhileD)
  next
    assume "l \<in> set (str_splitlines (skip_break (dropWhile ?nb s)))"
    then have "set l \<subseteq> set (skip_break (dropWhile ?nb s))"
      using 2(1) [OF refl refl] by (simp add: s_def)
    also have "\<dots> \<subseteq> set (dropWhile ?nb s)" by (rule set_skip_break)
    also have "\<dots> \<subseteq> set s" by (auto dest: set_dropWhileD)
    finally show ?thesis by (simp add: s_def)
  qed
qed

lemma set_filter_lines: "set (filter_lines s) \<subseteq> insert (CHR ''\<newline>'') (set s)"
proof -
  have "set (filter_lines s) \<subseteq> set ''\<newline>'' \<union> \<Union> (set ` set (filter keeps_line (str_splitlines s)))"
    unfolding filter_lines_def line_loop_filter append_Nil by (rule set_str_join)
  also have "\<dots> \<subseteq> insert (CHR ''\<newline>'') (set s)"
    using set_str_splitlines [of _ s] by auto
  finally show ?thesis .
qed

lemma keeps_line_semi: "keeps_line (l @ '';'')"
proof -
  have "CHR '';'' \<in> set (str_strip (l @ '';''))"
    by (simp add: str_strip_snoc semi_not_space)
  then have "\<not> bad_line (str_strip (l @ '';''))"
    using bad_line_chars semi_not_space semi_not_ident by blast
  then show ?thesis by (simp add: keeps_line_def)
qed

lemma filter_lines_semi:
  assumes "CHR '';'' \<notin> set q"
  shows "\<exists>j. filter_lines (q @ '';'') = j @ '';'' \<and> CHR '';'' \<notin> set j"
proof -
  from str_splitlines_snoc [OF semi_not_linebreak, of q] obtain ls l
    where sp: "str_splitlines (q @ '';'') = ls @ [l @ '';'']"
      and sub: "\<forall>x\<in>set (l # ls). set x \<subseteq> set q"
    by blast
  let ?j = "str_join ''\<newline>'' (filter keeps_line ls @ [l])"
  have "filter_lines (q @ '';'') = ?j @ '';''"
    by (simp add: filter_lines_def line_loop_filter sp keeps_line_semi str_join_snoc_char)
  moreover have "set ?j \<subseteq> set ''\<newline>'' \<union> \<Union> (set ` set (filter keeps_line ls @ [l]))"
    by (rule set_str_join)
  with sub assms have "CHR '';'' \<notin> set ?j" by auto
  ultimately show ?thesis by blast
qed

lemma clean_sql_eq:
  "clean_sql sql =
     Inr (str_strip (re_sub_order_by (filter_lines (str_strip
       (let s = re_sub_fence sql
        in if CHR '';'' \<in> set s then takeWhile (\<lambda>c. c \<noteq> CHR '';'') s @ '';'' else s)))))"
  by (simp add: clean_sql_def first_statement_eq filter_lines_def Let_def)

lemma semi_not_order_by: "lower_char (CHR '';'') \<notin> set ''order by''"
  by (simp add: lower_char_def)

lemma clean_sql_shape:
  "\<exists>body. CHR '';'' \<notin> set body \<and>
     clean_sql sql = Inr (if CHR '';'' \<in> set (re_sub_fence sql) then body @ '';'' else body)"
proof (cases "CHR '';'' \<in> set (re_sub_fence sql)")
  case False
  let ?out = "str_strip (re_sub_order_by (filter_lines (str_strip (re_sub_fence sql))))"
  have "set ?out \<subseteq> set (re_sub_order_by (filter_lines (str_strip (re_sub_fence sql))))"
    by (rule set_str_strip)
  also have "\<dots> \<subseteq> set (filter_lines (str_strip (re_sub_fence sql))) \<union> set ''ORDER BY''"
    by (rule set_re_sub_order_by)
  also have "\<dots> \<subseteq> insert (CHR ''\<newline>'') (set (str_strip (re_sub_fence sql))) \<union> set ''ORDER BY''"
    using set_filter_lines by blast
  also have "\<dots> \<subseteq> insert (CHR ''\<newline>'') (set (re_sub_fence sql)) \<union> set ''ORDER BY''"
    using set_str_strip by blast
  finally have "CHR '';'' \<notin> set ?out" using False by auto
  moreover have "clean_sql sql = Inr ?out" using False by (simp add: clean_sql_eq)
  ultimately show ?thesis using False by auto
next
  case True
  let ?p = "takeWhile (\<lambda>c. c \<noteq> CHR '';'') (re_sub_fence sql)"
  have p: "CHR '';'' \<notin> set ?p" by (auto dest: set_takeWhileD)
  then have q: "CHR '';'' \<notin> set (dropWhile isspace ?p)" by (auto dest: set_dropWhileD)
  from filter_lines_semi [OF q] obtain j
    where j: "filter_lines (dropWhile isspace ?p @ '';'') = j @ '';''" and nj: "CHR '';'' \<notin> set j"
    by blast
  let ?body = "dropWhile isspace (re_sub_order_by j)"
  have "clean_sql sql = Inr (?body @ '';'')"
    using True
    by (simp add: clean_sql_eq str_strip_snoc semi_not_space j
        re_sub_order_by_snoc [OF semi_not_space semi_not_order_by])
  moreover have "set ?body \<subseteq> set j \<union> set ''ORDER BY''"
    using set_re_sub_order_by [of j] set_dropWhileD [of _ isspace "re_sub_order_by j"] by blast
  with nj have "CHR '';'' \<notin> set ?body" by auto
  ultimately show ?thesis using True by auto
qed

subsection \<open>Fenced blocks\<close>

text \<open>
  Text without a backtick is copied by \<open>re_sub_fence\<close>, and a block whose two fences are
  the first two of the text is dropped with all it encloses.
\<close>

lemma match_fence_not_tick: "c \<noteq> CHR ''`'' \<Longrightarrow> match_fence (c # cs) = None"
  by (simp add: match_fence_def)

lemma re_sub_fence_no_tick: "CHR ''`'' \<notin> set a \<Longrightarrow> re_sub_fence (a @ c) = a @ re_sub_fence c"
  by (induction a) (auto simp: match_fence_not_tick)

lemma find_fence_no_tick: "CHR ''`'' \<notin> set b \<Longrightarrow> find_fence (b @ ''```'' @ c) = Some c"
  by (induction b) auto

lemma re_sub_fence_block:
  assumes "CHR ''`'' \<notin> set a" and "CHR ''`'' \<notin> set b"
  shows "re_sub_fence (a @ ''```'' @ b @ ''```'' @ c) = a @ re_sub_fence c"
proof -
  have "match_fence (''```'' @ b @ ''```'' @ c) = Some c"
    using find_fence_no_tick [OF assms(2)] by (simp add: match_fence_def)
  then have "re_sub_fence (''```'' @ b @ ''```'' @ c) = re_sub_fence c"
    by simp
  with re_sub_fence_no_tick [OF assms(1)] show ?thesis by simp
qed

subsection \<open>Lengths\<close>

text \<open>
  No step makes its text longer.
\<close>

lemma length_re_sub_fence: "length (re_sub_fence s) \<le> length s"
proof (induction s rule: re_sub_fence.induct)
  case 1
  show ?case by simp
next
  case (2 c cs)
  show ?case
  proof (cases "match_fence (c # cs)")
    case None
    with 2 show ?thesis by simp
  next
    case (Some rest)
    with 2 match_fence_length [OF Some] show ?thesis by simp
  qed
qed

lemma length_re_sub_order_by: "length (re_sub_order_by s) \<le> length s"
proof (induction s rule: re_sub_order_by.induct)
  case 1
  show ?case by simp
next
  case (2 c cs)
  show ?case
  proof (cases "match_order_by (c # cs)")
    case None
    with 2 show ?thesis by simp
  next
    case (Some rest)
    with 2 match_order_by_length [OF Some] show ?thesis by simp
  qed
qed

lemma length_str_strip: "length (str_strip s) \<le> length s"
proof -
  have "length (str_strip s) \<le> length (rev (dropWhile isspace s))"
    unfolding str_strip_def length_rev [of "dropWhile isspace (rev (dropWhile isspace s))"]
    by (rule length_dropWhile_le)
  also have "\<dots> \<le> length s"
    unfolding length_rev by (rule length_dropWhile_le)
  finally show ?thesis .
qed

lemma length_takeWhile_less: "d \<in> set s \<Longrightarrow> length (takeWhile (\<lambda>c. c \<noteq> d) s) < length s"
  by (induction s) auto

lemma length_str_join:
  "length (str_join [n] ls) = sum_list (map (\<lambda>l. Suc (length l)) ls) - 1"
  by (induction "[n]" ls rule: str_join.induct) auto

lemma length_str_splitlines:
  "sum_list (map (\<lambda>l. Suc (length l)) (str_splitlines s)) \<le> Suc (length s)"
proof (induction s rule: str_splitlines.induct)
  case 1
  show ?case by simp
next
  case (2 c cs)
  let ?nb = "\<lambda>x. \<not> islinebreak x"
  define s where "s = c # cs"
  define rest where "rest = dropWhile ?nb s"
  have len: "length s = length (takeWhile ?nb s) + length rest"
    unfolding rest_def by (metis length_append takeWhile_dropWhile_id)
  have unf: "str_splitlines s = takeWhile ?nb s # str_splitlines (skip_break rest)"
    unfolding rest_def by (rule str_splitlines_unfold) (simp add: s_def)
  have ih: "sum_list (map (\<lambda>l. Suc (length l)) (str_splitlines (skip_break rest))) \<le> Suc (length (skip_break rest))"
    using 2 [OF refl refl] by (simp add: s_def rest_def)
  show ?case unfolding s_def [symmetric]
  proof (cases rest)
    case Nil
    with unf len show "sum_list (map (\<lambda>l. Suc (length l)) (str_splitlines s)) \<le> Suc (length s)"
      by simp
  next
    case (Cons b r)
    with length_skip_break [of rest] have "Suc (length (skip_break rest)) \<le> length rest" by simp
    with ih unf len show "sum_list (map (\<lambda>l. Suc (length l)) (str_splitlines s)) \<le> Suc (length s)"
      by simp
  qed
qed

lemma length_filter_lines: "length (filter_lines s) \<le> length s"
proof -
  let ?f = "\<lambda>l. Suc (length l)"
  have "sum_list (map ?f (filter keeps_line (str_splitlines s))) \<le> sum_list (map ?f (str_splitlines s))"
    by (rule sum_list_filter_le_nat)
  also have "\<dots> \<le> Suc (length s)" by (rule length_str_splitlines)
  finally show ?thesis
    by (simp add: filter_lines_def line_loop_filter length_str_join)
qed

subsection \<open>The kinds of lines\<close>





subsection \<open>A lone identifier\<close>

text \<open>
  A text of identifier characters only passes every step but the loop unchanged.
\<close>

lemma str_strip_id:
  "s = [] \<or> (\<not> isspace (hd s) \<and> \<not> isspace (last s)) \<Longrightarrow> str_strip s = s"
proof (cases s)
  case Nil
  then show ?thesis by (simp add: str_strip_def)
next
  case (Cons c cs)
  assume "s = [] \<or> (\<not> isspace (hd s) \<and> \<not> isspace (last s))"
  with Cons have a: "\<not> isspace c" and b: "\<not> isspace (last s)" by auto
  from a Cons have "dropWhile isspace s = s" by simp
  moreover have "dropWhile isspace (rev s) = rev s"
  proof (cases "rev s")
    case Nil
    then show ?thesis by simp
  next
    case (Cons a as)
    with \<open>s = c # cs\<close> have "a = last s" by (metis hd_rev list.sel(1))
    with b have "\<not> isspace a" by simp
    then have "dropWhile isspace (a # as) = a # as" by simp
    with Cons show ?thesis by (simp only:)
  qed
  ultimately show ?thesis by (simp add: str_strip_def)
qed








subsection \<open>Fixed points of \<open>strip\<close> and of the truncation\<close>

text \<open>
  A stripped text is fixed by \<open>strip\<close>, and a text whose only \<open>;\<close> is its last
  character is fixed by the truncation.
\<close>

lemma str_strip_ends:
  "str_strip s = [] \<or> (\<not> isspace (hd (str_strip s)) \<and> \<not> isspace (last (str_strip s)))"
proof (cases "str_strip s = []")
  case True
  then show ?thesis by simp
next
  case False
  define u where "u = dropWhile isspace s"
  define v where "v = dropWhile isspace (rev u)"
  have sv: "str_strip s = rev v" by (simp add: str_strip_def u_def v_def)
  with False have vne: "v \<noteq> []" by simp
  then have "\<not> isspace (hd v)" unfolding v_def by (rule hd_dropWhile)
  with vne have l: "\<not> isspace (last (rev v))" by (simp add: last_rev)
  from vne have "rev u \<noteq> []" unfolding v_def by auto
  then have une: "u \<noteq> []" by simp
  then have hu: "\<not> isspace (hd u)" unfolding u_def by (rule hd_dropWhile)
  have "suffix v (rev u)" unfolding v_def by (rule suffix_dropWhile)
  then obtain w where "rev u = w @ v" by (auto simp: suffix_def)
  with vne have "last v = last (rev u)" by simp
  also have "\<dots> = hd u" using une by (simp add: last_rev)
  finally have "hd (rev v) = hd u" using vne by (simp add: hd_rev)
  with hu l sv show ?thesis by simp
qed

lemma str_strip_idem: "str_strip (str_strip s) = str_strip s"
  using str_strip_ends [of s] by (rule str_strip_id)

lemma first_statement_fixed:
  assumes "CHR '';'' \<notin> set body" and "y = body \<or> y = body @ '';''"
  shows "first_statement y = Inr y"
  using assms by (auto simp: first_statement_eq takeWhile_tail)

subsection \<open>Lines, one at a time\<close>

text \<open>
  The lines of a text, read from the left: the first line, and the lines of what follows
  the first line boundary.
\<close>

lemma all_kept_Nil: "all_kept []"
  by (simp add: all_kept_def)

lemma skip_break_lf: "skip_break (CHR ''\<newline>'' # s) = s"
  by (cases s) simp_all

lemma all_kept_pre:
  assumes "\<forall>c\<in>set pre. nb c" and "pre @ s \<noteq> []"
  shows "all_kept (pre @ s) =
    (keeps_line (pre @ takeWhile nb s) \<and> all_kept (skip_break (dropWhile nb s)))"
proof -
  from assms(1) have "takeWhile nb (pre @ s) = pre @ takeWhile nb s"
    and "dropWhile nb (pre @ s) = dropWhile nb s"
    by simp_all
  with str_splitlines_unfold [OF assms(2)] show ?thesis
    by (simp add: all_kept_def)
qed

lemma all_kept_unfold:
  "s \<noteq> [] \<Longrightarrow> all_kept s = (keeps_line (takeWhile nb s) \<and> all_kept (skip_break (dropWhile nb s)))"
  using all_kept_pre [of "[]" s] by simp

lemma str_strip_all_space:
  assumes "\<forall>c\<in>set s. isspace c"
  shows "str_strip s = []"
  using assms by (auto simp: str_strip_def dest: set_dropWhileD)

lemma str_strip_pad:
  assumes "\<forall>c\<in>set t1. isspace c" and "\<forall>c\<in>set t2. isspace c"
  shows "str_strip (t1 @ s @ t2) = str_strip s"
proof (cases "\<forall>c\<in>set s. isspace c")
  case True
  with assms have "\<forall>c\<in>set (t1 @ s @ t2). isspace c" by auto
  then have "str_strip (t1 @ s @ t2) = []" by (rule str_strip_all_space)
  with True show ?thesis by (simp add: str_strip_all_space)
next
  case False
  then obtain x where x: "x \<in> set s" "\<not> isspace x" by blast
  from assms(1) have "dropWhile isspace (t1 @ s @ t2) = dropWhile isspace (s @ t2)"
    by simp
  also from x have "\<dots> = dropWhile isspace s @ t2"
    by (rule dropWhile_append1)
  finally have "rev (dropWhile isspace (t1 @ s @ t2)) = rev t2 @ rev (dropWhile isspace s)"
    by simp
  moreover from assms(2) have "dropWhile isspace (rev t2 @ rev (dropWhile isspace s))
      = dropWhile isspace (rev (dropWhile isspace s))"
    by (intro dropWhile_append2) simp
  ultimately show ?thesis by (simp add: str_strip_def)
qed

lemma keeps_line_pad:
  assumes "\<forall>c\<in>set t1. isspace c" and "\<forall>c\<in>set t2. isspace c"
  shows "keeps_line (t1 @ l @ t2) = keeps_line l"
  by (simp add: keeps_line_def str_strip_pad [OF assms])

lemma linebreak_space: "islinebreak c \<Longrightarrow> isspace c"
  by (auto simp: islinebreak_def isspace_def Let_def)

lemma lf_only_append: "lf_only (s @ t) = (lf_only s \<and> lf_only t)"
  by (auto simp: lf_only_def)

lemma lf_only_Cons: "lf_only (c # s) = ((islinebreak c \<longrightarrow> c = CHR ''\<newline>'') \<and> lf_only s)"
  by (auto simp: lf_only_def)

lemma dropWhile_nb_lf:
  assumes "lf_only s" and "dropWhile nb s \<noteq> []"
  shows "\<exists>r. dropWhile nb s = CHR ''\<newline>'' # r"
proof -
  from assms(2) obtain b r where br: "dropWhile nb s = b # r" by (cases "dropWhile nb s") auto
  then have "\<not> nb b" using hd_dropWhile [of nb s] by auto
  moreover have "b \<in> set s" using br set_dropWhileD [of b nb s] by simp
  ultimately have "b = CHR ''\<newline>''" using assms(1) by (auto simp: lf_only_def)
  with br show ?thesis by simp
qed

subsection \<open>A line that holds ORDER BY is kept\<close>

text \<open>
  In a bare identifier list white space follows a comma or ends the line, so a line with a
  letter, a space and a letter in a row, as in \<open>ORDER BY\<close>, is no such list.
\<close>

lemma space_not_ident: "isspace c \<Longrightarrow> \<not> isident c"
  by (auto simp: isident_def isspace_def Let_def)

lemma comma_class: "\<not> isident (CHR '','')" "\<not> isspace (CHR '','')"
  by (simp_all add: isident_def isspace_def)

lemma bad_line_Cons: "bad_line (c # s) = (isident c \<and> in_ident s)"
  by (simp add: bad_line_def in_ident_def)

lemma in_ident_Cons: "in_ident (c # s) = (if isident c then in_ident s else ident_items (c # s))"
  by (simp add: in_ident_def)

lemma ident_items_Cons:
  "ident_items (c # s) = (if c = CHR '','' then after_comma s else isspace c \<and> ident_items s \<and> (\<forall>x\<in>set s. isspace x))"
proof (cases "c = CHR '',''")
  case True
  then show ?thesis by (simp add: after_comma_def Let_def)
next
  case False
  show ?thesis
  proof (cases s)
    case Nil
    with False show ?thesis by simp
  next
    case (Cons d ds)
    with False show ?thesis using comma_class(2) by auto
  qed
qed

lemma after_comma_Cons:
  "after_comma (c # s) = (if isspace c then after_comma s else isident c \<and> in_ident s)"
  by (simp add: after_comma_def in_ident_def)

lemma factor_not_bad:
  assumes "isident x" and "isspace w" and "isident z"
  shows "\<not> bad_line (a @ x # w # z # b) \<and> \<not> in_ident (a @ x # w # z # b) \<and>
    \<not> after_comma (a @ x # w # z # b) \<and> \<not> ident_items (a @ x # w # z # b)"
proof (induction a)
  case Nil
  from assms have xs: "\<not> isspace x" and zs: "\<not> isspace z" and wi: "\<not> isident w"
    and xc: "x \<noteq> CHR '',''" and wc: "w \<noteq> CHR '',''"
    using space_not_ident comma_class by auto
  have ii: "\<not> ident_items (w # z # b)"
    using wc zs by (simp add: ident_items_Cons)
  then have "\<not> in_ident (w # z # b)" using wi by (simp add: in_ident_Cons)
  then have a: "\<not> in_ident (x # w # z # b)" using assms(1) by (simp add: in_ident_Cons)
  moreover have "\<not> bad_line (x # w # z # b)"
    using \<open>\<not> in_ident (w # z # b)\<close> by (simp add: bad_line_Cons)
  moreover have "\<not> after_comma (x # w # z # b)"
    using xs \<open>\<not> in_ident (w # z # b)\<close> by (simp add: after_comma_Cons)
  moreover have "\<not> ident_items (x # w # z # b)"
    using xc xs by (simp add: ident_items_Cons)
  ultimately show ?case by simp
next
  case (Cons c a)
  then show ?case
    by (simp add: bad_line_Cons in_ident_Cons ident_items_Cons after_comma_Cons
        del: ident_items.simps)
qed

lemma dropWhile_keeps_tail:
  "\<not> P x \<Longrightarrow> \<exists>a'. dropWhile P (a @ x # r) = a' @ x # r"
proof (induction a)
  case Nil
  then have "dropWhile P ([] @ x # r) = [] @ x # r" by simp
  then show ?case by blast
next
  case (Cons c a)
  show ?case
  proof (cases "P c")
    case True
    with Cons show ?thesis by simp
  next
    case False
    then have "dropWhile P ((c # a) @ x # r) = (c # a) @ x # r" by simp
    then show ?thesis by blast
  qed
qed

lemma str_strip_keeps_factor:
  assumes "\<not> isspace x" and "\<not> isspace z"
  shows "\<exists>a' b'. str_strip (a @ x # w @ z # b) = a' @ x # w @ z # b'"
proof -
  from dropWhile_keeps_tail [of isspace x a "w @ z # b"] assms(1)
  obtain a' where a': "dropWhile isspace (a @ x # w @ z # b) = a' @ x # w @ z # b"
    by blast
  have "rev (a' @ x # w @ z # b) = rev b @ z # (rev w @ x # rev a')" by simp
  moreover from dropWhile_keeps_tail [of isspace z "rev b" "rev w @ x # rev a'"] assms(2)
  obtain b' where "dropWhile isspace (rev b @ z # (rev w @ x # rev a')) = b' @ z # (rev w @ x # rev a')"
    by blast
  ultimately have "str_strip (a @ x # w @ z # b) = rev (b' @ z # (rev w @ x # rev a'))"
    by (simp add: str_strip_def a')
  then have "str_strip (a @ x # w @ z # b) = a' @ x # w @ z # rev b'" by simp
  then show ?thesis by blast
qed

lemma keeps_order_by: "keeps_line (a @ ''ORDER BY'' @ b)"
proof -
  have "\<not> isspace (CHR ''O'')" and "\<not> isspace (CHR ''Y'')"
    by (simp_all add: isspace_def)
  from str_strip_keeps_factor [OF this, of a "''RDER B''" b]
  obtain a' b' where "str_strip (a @ ''ORDER BY'' @ b) = a' @ ''ORDER BY'' @ b'"
    by auto
  then have s: "str_strip (a @ ''ORDER BY'' @ b) = (a' @ ''ORDE'') @ CHR ''R'' # CHR '' '' # CHR ''B'' # (''Y'' @ b')"
    by simp
  have "isident (CHR ''R'')" "isspace (CHR '' '')" "isident (CHR ''B'')"
    by (simp_all add: isident_def isspace_def)
  from factor_not_bad [OF this] have "\<not> bad_line (str_strip (a @ ''ORDER BY'' @ b))"
    unfolding s by blast
  then show ?thesis by (simp add: keeps_line_def)
qed

subsection \<open>Kept lines through the collapse and \<open>strip\<close>\<close>

text \<open>
  When every line of a text is kept, so is every line of the text after the collapse of
  ORDER BY, which may merge lines, and after \<open>strip\<close>.
\<close>

lemma islinebreak_lf: "islinebreak (CHR ''\<newline>'')"
  by (simp add: islinebreak_def)

lemma all_kept_single:
  assumes "s \<noteq> []" and "\<forall>x\<in>set s. nb x"
  shows "all_kept s = keeps_line s"
  using all_kept_pre [OF assms(2), of "[]"] assms(1) by (simp add: all_kept_Nil)

lemma all_kept_lf:
  assumes "\<forall>c\<in>set pre. nb c"
  shows "all_kept (pre @ CHR ''\<newline>'' # s) = (keeps_line pre \<and> all_kept s)"
  using all_kept_pre [OF assms, of "CHR ''\<newline>'' # s"]
  by (simp add: islinebreak_lf skip_break_lf)

lemma all_kept_more_lines:
  "lf_only (u @ s) \<Longrightarrow> all_kept (u @ s) \<Longrightarrow> all_kept (skip_break (dropWhile nb s))"
proof (induction u rule: length_induct)
  case (1 u)
  show ?case
  proof (cases "\<forall>c\<in>set u. nb c")
    case True
    show ?thesis
    proof (cases "u @ s = []")
      case True
      then show ?thesis by (simp add: all_kept_Nil)
    next
      case False
      from all_kept_pre [OF True False] 1(3) show ?thesis by simp
    qed
  next
    case False
    then obtain b where b: "b \<in> set u" "\<not> nb b" by blast
    then have ne: "dropWhile nb u \<noteq> []"
      by (simp only: Not_eq_iff dropWhile_eq_Nil_conv) blast
    from 1(2) have "lf_only u" by (simp add: lf_only_append)
    from dropWhile_nb_lf [OF this ne] obtain r where r: "dropWhile nb u = CHR ''\<newline>'' # r"
      by blast
    from b have dr: "dropWhile nb (u @ s) = dropWhile nb u @ s"
      by (rule dropWhile_append1)
    have une: "u @ s \<noteq> []" using b by auto
    from 1(3) have "all_kept (skip_break (dropWhile nb (u @ s)))"
      by (simp add: all_kept_unfold [OF une])
    then have k: "all_kept (r @ s)" by (simp add: dr r skip_break_lf)
    have "length r < length u"
      using length_dropWhile_le [of nb u] by (simp add: r)
    moreover have "lf_only (r @ s)"
    proof -
      have "set r \<subseteq> set u" using set_dropWhileD [of _ nb u] by (auto simp: r)
      with 1(2) show ?thesis by (auto simp: lf_only_def)
    qed
    ultimately show ?thesis using 1(1) k by blast
  qed
qed

lemma match_order_by_split:
  assumes "match_order_by s = Some rest"
  shows "\<exists>m. s = m @ rest"
  using match_order_by_suffix [OF assms] by (auto simp: suffix_def)

lemma match_order_by_not_break:
  assumes "islinebreak c"
  shows "match_order_by (c # cs) = None"
proof -
  have "lower_char c \<noteq> CHR ''o''"
    using assms by (auto simp: islinebreak_def lower_char_def Let_def)
  then show ?thesis by (simp add: match_order_by_def)
qed

lemma all_kept_re_sub_order_by:
  "lf_only s \<Longrightarrow> \<forall>c\<in>set pre. nb c \<Longrightarrow> all_kept (pre @ s) \<Longrightarrow>
   all_kept (pre @ re_sub_order_by s)"
proof (induction s arbitrary: pre rule: re_sub_order_by.induct)
  case 1
  then show ?case by simp
next
  case (2 c cs)
  show ?case
  proof (cases "match_order_by (c # cs)")
    case None
    then have out: "re_sub_order_by (c # cs) = c # re_sub_order_by cs" by simp
    from 2(3) have lcs: "lf_only cs" by (simp add: lf_only_Cons)
    show ?thesis
    proof (cases "islinebreak c")
      case True
      with 2(3) have c: "c = CHR ''\<newline>''" by (simp add: lf_only_Cons)
      from 2(5) have "keeps_line pre" and "all_kept cs"
        by (simp_all add: all_kept_lf [OF 2(4)] c)
      moreover from 2(1) [OF None lcs, of "[]"] \<open>all_kept cs\<close>
      have "all_kept (re_sub_order_by cs)" by simp
      ultimately show ?thesis
        unfolding out by (simp add: all_kept_lf [OF 2(4)] c)
    next
      case False
      with 2(4) have "\<forall>x\<in>set (pre @ [c]). nb x" by simp
      from 2(1) [OF None lcs this] 2(5) show ?thesis unfolding out by simp
    qed
  next
    case (Some rest)
    then have out: "re_sub_order_by (c # cs) = ''ORDER BY'' @ re_sub_order_by rest" by simp
    from match_order_by_split [OF Some] obtain m where m: "c # cs = m @ rest" by blast
    with 2(3) have lr: "lf_only rest" by (simp add: lf_only_append)
    have pre': "\<forall>x\<in>set (pre @ ''ORDER BY''). nb x"
      using 2(4) by (simp add: islinebreak_def)
    have "lf_only ((pre @ m) @ rest)"
      using 2(3) 2(4) m by (auto simp: lf_only_def)
    moreover have "all_kept ((pre @ m) @ rest)" using 2(5) m by simp
    ultimately have "all_kept (skip_break (dropWhile nb rest))"
      by (rule all_kept_more_lines)
    moreover have "keeps_line ((pre @ ''ORDER BY'') @ takeWhile nb rest)"
      using keeps_order_by [of pre "takeWhile nb rest"] by simp
    ultimately have "all_kept ((pre @ ''ORDER BY'') @ rest)"
      using all_kept_pre [OF pre', of rest] by simp
    from 2(2) [OF Some lr pre' this] show ?thesis unfolding out by simp
  qed
qed

lemma all_kept_str_join:
  "\<forall>k\<in>set ks. keeps_line k \<and> (\<forall>c\<in>set k. nb c) \<Longrightarrow> all_kept (str_join ''\<newline>'' ks)"
proof (induction "''\<newline>''" ks rule: str_join.induct)
  case 1
  show ?case by (simp add: all_kept_Nil)
next
  case (2 k)
  show ?case
  proof (cases "k = []")
    case True
    then show ?thesis by (simp add: all_kept_Nil)
  next
    case False
    with 2 all_kept_pre [of k "[]"] show ?thesis by (simp add: all_kept_Nil)
  qed
next
  case (3 k k' ks)
  from 3(2) have "\<forall>c\<in>set k. nb c" and "keeps_line k" by simp_all
  with all_kept_lf [of k "str_join ''\<newline>'' (k' # ks)"] 3
  show ?case by simp
qed

lemma all_kept_drop_leading:
  "lf_only (t @ s) \<Longrightarrow> \<forall>c\<in>set t. isspace c \<Longrightarrow> all_kept (t @ s) \<Longrightarrow> all_kept s"
proof (induction t)
  case Nil
  then show ?case by simp
next
  case (Cons c t)
  have "all_kept (t @ s)"
  proof (cases "islinebreak c")
    case True
    with Cons(2) have c: "c = CHR ''\<newline>''" by (simp add: lf_only_Cons)
    from Cons(4) all_kept_lf [of "[]" "t @ s"] show ?thesis
      by (simp add: c)
  next
    case False
    show ?thesis
    proof (cases "t @ s = []")
      case True
      then show ?thesis by (simp add: all_kept_Nil)
    next
      case ne: False
      from Cons(3) have "keeps_line ([c] @ takeWhile nb (t @ s) @ []) = keeps_line (takeWhile nb (t @ s))"
        by (intro keeps_line_pad) simp_all
      with Cons(4) all_kept_pre [of "[c]" "t @ s"] False all_kept_unfold [OF ne]
      show ?thesis by simp
    qed
  qed
  with Cons show ?case by (simp add: lf_only_Cons)
qed

lemma all_kept_drop_trailing:
  "lf_only s \<Longrightarrow> \<forall>c\<in>set t. isspace c \<Longrightarrow> all_kept (s @ t) \<Longrightarrow> all_kept s"
proof (induction s rule: str_splitlines.induct)
  case 1
  show ?case by (simp add: all_kept_Nil)
next
  case (2 c cs)
  define s where "s = c # cs"
  have sne: "s \<noteq> []" by (simp add: s_def)
  from 2(2) have ls: "lf_only s" by (simp add: s_def)
  from 2(4) have ak: "all_kept (s @ t)" by (simp add: s_def)
  show ?case unfolding s_def [symmetric]
  proof (cases "\<forall>x\<in>set s. nb x")
    case True
    have "keeps_line ([] @ s @ takeWhile nb t) = keeps_line s"
      using 2(3) by (intro keeps_line_pad) (auto dest: set_takeWhileD)
    with ak all_kept_pre [OF True, of t] sne have "keeps_line s" by simp
    then show "all_kept s" by (simp add: all_kept_single [OF sne True])
  next
    case False
    then obtain b where b: "b \<in> set s" "\<not> nb b" by blast
    then have ne: "dropWhile nb s \<noteq> []"
      by (simp only: Not_eq_iff dropWhile_eq_Nil_conv) blast
    from dropWhile_nb_lf [OF ls ne] obtain r where r: "dropWhile nb s = CHR ''\<newline>'' # r"
      by blast
    from b have tk: "takeWhile nb (s @ t) = takeWhile nb s"
      and dr: "dropWhile nb (s @ t) = dropWhile nb s @ t"
      by (simp_all add: takeWhile_append1 dropWhile_append1)
    from ak have "keeps_line (takeWhile nb s)" and "all_kept (r @ t)"
      using all_kept_unfold [of "s @ t"] sne by (simp_all add: tk dr r skip_break_lf)
    moreover have "lf_only r"
    proof -
      have "set r \<subseteq> set s" using set_dropWhileD [of _ nb s] by (auto simp: r)
      with ls show ?thesis by (auto simp: lf_only_def)
    qed
    moreover have "skip_break (dropWhile nb (c # cs)) = r"
      using r by (simp add: s_def skip_break_lf)
    ultimately have "all_kept r" using 2(1) [OF refl refl] 2(3) by simp
    with \<open>keeps_line (takeWhile nb s)\<close> show "all_kept s"
      by (simp add: all_kept_unfold [OF sne] r skip_break_lf)
  qed
qed

subsection \<open>The line filter on its own output\<close>

text \<open>
  The output of \<open>clean_sql\<close> has line feeds as its only line boundaries and only kept
  lines, so the loop and the join give it back.
\<close>

lemma str_splitlines_nb: "l \<in> set (str_splitlines s) \<Longrightarrow> \<forall>c\<in>set l. nb c"
proof (induction s arbitrary: l rule: str_splitlines.induct)
  case 1
  then show ?case by simp
next
  case (2 c cs)
  define s where "s = c # cs"
  from 2(2) have "l \<in> set (str_splitlines s)" by (simp add: s_def)
  then have "l = takeWhile nb s \<or> l \<in> set (str_splitlines (skip_break (dropWhile nb s)))"
    by (subst (asm) str_splitlines_unfold) (simp_all add: s_def)
  then show ?case
  proof
    assume "l = takeWhile nb s"
    then show ?thesis by (auto dest: set_takeWhileD)
  next
    assume "l \<in> set (str_splitlines (skip_break (dropWhile nb s)))"
    then show ?thesis unfolding s_def by (rule 2(1) [OF refl refl])
  qed
qed

lemma lf_only_str_join:
  "\<forall>k\<in>set ks. \<forall>c\<in>set k. nb c \<Longrightarrow> lf_only (str_join ''\<newline>'' ks)"
  by (induction "''\<newline>''" ks rule: str_join.induct)
    (auto simp: lf_only_def)

lemma lf_only_subset: "set t \<subseteq> set s \<Longrightarrow> lf_only s \<Longrightarrow> lf_only t"
  by (auto simp: lf_only_def)

lemma lf_only_re_sub_order_by: "lf_only s \<Longrightarrow> lf_only (re_sub_order_by s)"
proof -
  assume "lf_only s"
  moreover have "lf_only ''ORDER BY''" by (simp add: lf_only_def islinebreak_def)
  ultimately have "lf_only (s @ ''ORDER BY'')" by (simp add: lf_only_append)
  moreover have "set (re_sub_order_by s) \<subseteq> set (s @ ''ORDER BY'')"
    using set_re_sub_order_by [of s] by simp
  ultimately show ?thesis by (rule lf_only_subset [rotated])
qed

lemma lf_only_filter_lines: "lf_only (filter_lines t)"
  unfolding filter_lines_def line_loop_filter append_Nil
  by (rule lf_only_str_join) (auto dest: str_splitlines_nb)

lemma all_kept_filter_lines: "all_kept (filter_lines t)"
  unfolding filter_lines_def line_loop_filter append_Nil
  by (rule all_kept_str_join) (auto dest: str_splitlines_nb)

lemma str_strip_decomp:
  "\<exists>t1 t2. s = t1 @ str_strip s @ t2 \<and> (\<forall>c\<in>set t1. isspace c) \<and> (\<forall>c\<in>set t2. isspace c)"
proof -
  define u where "u = dropWhile isspace s"
  have "rev (dropWhile isspace (rev u)) @ rev (takeWhile isspace (rev u))
      = rev (takeWhile isspace (rev u) @ dropWhile isspace (rev u))"
    by (simp only: rev_append)
  also have "\<dots> = u" by (simp only: takeWhile_dropWhile_id rev_rev_ident)
  finally have "u = str_strip s @ rev (takeWhile isspace (rev u))"
    by (simp only: str_strip_def u_def)
  moreover have "s = takeWhile isspace s @ u" by (simp add: u_def)
  ultimately have "s = takeWhile isspace s @ str_strip s @ rev (takeWhile isspace (rev u))"
    by simp
  moreover have "\<forall>c\<in>set (takeWhile isspace s). isspace c" by (auto dest: set_takeWhileD)
  moreover have "\<forall>c\<in>set (rev (takeWhile isspace (rev u))). isspace c"
    by (auto dest: set_takeWhileD)
  ultimately show ?thesis by blast
qed

lemma all_kept_str_strip:
  assumes "lf_only s" and "all_kept s"
  shows "all_kept (str_strip s)"
proof -
  from str_strip_decomp [of s] obtain t1 t2 where
    s: "s = t1 @ str_strip s @ t2" and t1: "\<forall>c\<in>set t1. isspace c" and t2: "\<forall>c\<in>set t2. isspace c"
    by blast
  from assms s have "lf_only (t1 @ str_strip s @ t2)" and "all_kept (t1 @ str_strip s @ t2)"
    by simp_all
  then have "lf_only (str_strip s @ t2)" and "all_kept (str_strip s @ t2)"
    using all_kept_drop_leading [OF _ t1] by (simp_all add: lf_only_append)
  then show ?thesis
    using all_kept_drop_trailing [OF _ t2] by (simp add: lf_only_append)
qed

lemma str_join_str_splitlines:
  "lf_only s \<Longrightarrow> s = [] \<or> \<not> islinebreak (last s) \<Longrightarrow> str_join ''\<newline>'' (str_splitlines s) = s"
proof (induction s rule: str_splitlines.induct)
  case 1
  show ?case by simp
next
  case (2 c cs)
  define s where "s = c # cs"
  have sne: "s \<noteq> []" by (simp add: s_def)
  from 2(2) have ls: "lf_only s" by (simp add: s_def)
  from 2(3) have la: "\<not> islinebreak (last s)" by (simp add: s_def)
  have unf: "str_splitlines s = takeWhile nb s # str_splitlines (skip_break (dropWhile nb s))"
    using sne by (rule str_splitlines_unfold)
  show ?case unfolding s_def [symmetric]
  proof (cases "dropWhile nb s = []")
    case True
    then have "takeWhile nb s = s" by (metis append_Nil2 takeWhile_dropWhile_id)
    with unf True show "str_join ''\<newline>'' (str_splitlines s) = s" by simp
  next
    case False
    from dropWhile_nb_lf [OF ls False] obtain r where r: "dropWhile nb s = CHR ''\<newline>'' # r"
      by blast
    have s: "s = takeWhile nb s @ CHR ''\<newline>'' # r"
      using r by (metis takeWhile_dropWhile_id)
    have rne: "r \<noteq> []"
    proof
      assume "r = []"
      with s have "last s = CHR ''\<newline>''" by (metis last_snoc)
      with la islinebreak_lf show False by simp
    qed
    then have lr: "last r = last s" using s by (metis last_appendR last_ConsR list.distinct(1))
    have "lf_only r" using ls s by (metis lf_only_append lf_only_Cons)
    moreover have "skip_break (dropWhile nb (c # cs)) = r"
      using r by (simp add: s_def skip_break_lf)
    ultimately have ih: "str_join ''\<newline>'' (str_splitlines r) = r"
      using 2(1) [OF refl refl] la lr by simp
    from rne obtain l ls where "str_splitlines r = l # ls"
      using str_splitlines_unfold [OF rne] by blast
    with ih unf r have "str_join ''\<newline>'' (str_splitlines s) = takeWhile nb s @ CHR ''\<newline>'' # r"
      by (simp add: skip_break_lf)
    with s show "str_join ''\<newline>'' (str_splitlines s) = s" by simp
  qed
qed

lemma filter_lines_fixed:
  assumes "all_kept y" and "lf_only y" and "y = [] \<or> \<not> islinebreak (last y)"
  shows "filter_lines y = y"
proof -
  from assms(1) have "filter keeps_line (str_splitlines y) = str_splitlines y"
    by (simp add: all_kept_def list_all_iff)
  then show ?thesis
    using str_join_str_splitlines [OF assms(2,3)]
    by (simp add: filter_lines_def line_loop_filter)
qed

lemma filter_lines_output:
  fixes t :: string
  defines "y \<equiv> str_strip (re_sub_order_by (filter_lines t))"
  shows "filter_lines y = y"
proof (rule filter_lines_fixed)
  have "all_kept ([] @ re_sub_order_by (filter_lines t))"
    using all_kept_filter_lines [of t]
    by (intro all_kept_re_sub_order_by lf_only_filter_lines) simp_all
  then show "all_kept y"
    unfolding y_def
    by (intro all_kept_str_strip lf_only_re_sub_order_by lf_only_filter_lines) simp
  show "lf_only y"
    unfolding y_def
    by (rule lf_only_subset [OF set_str_strip]) (intro lf_only_re_sub_order_by lf_only_filter_lines)
  show "y = [] \<or> \<not> islinebreak (last y)"
    unfolding y_def using str_strip_ends [of "re_sub_order_by (filter_lines t)"] linebreak_space
    by blast
qed

subsection \<open>Counting fences\<close>

text \<open>
  A text with at most one fence holds no fenced block and is fixed by \<open>re_sub_fence\<close>,
  and the output of \<open>re_sub_fence\<close> is such a text.
\<close>

lemma fences_no_tick: "CHR ''`'' \<notin> set u \<Longrightarrow> count_fences k u = 0"
  by (induction u arbitrary: k) auto

lemma fences_append_no_tick: "CHR ''`'' \<notin> set u \<Longrightarrow> u \<noteq> [] \<Longrightarrow> count_fences k (u @ v) = count_fences 0 v"
proof (induction u arbitrary: k)
  case Nil
  then show ?case by simp
next
  case (Cons c u)
  then show ?case by (cases "u = []") auto
qed

lemma fences_append:
  "v = [] \<or> hd v \<noteq> CHR ''`'' \<Longrightarrow> count_fences k (u @ v) = count_fences k u + count_fences 0 v"
proof (induction u arbitrary: k)
  case Nil
  then show ?case by (cases v) auto
next
  case (Cons c u)
  then show ?case by simp
qed

lemma fences_mono:
  "count_fences 0 s \<le> count_fences (Suc 0) s \<and> count_fences (Suc 0) s \<le> count_fences 2 s \<and> count_fences 2 s \<le> Suc (count_fences 0 s)"
  by (induction s) (auto simp: numeral_2_eq_2)

lemma fences_Cons_le: "count_fences 0 cs \<le> count_fences 0 (c # cs)"
  using fences_mono [of cs] by simp

lemma find_fence_Cons_None: "find_fence (c # cs) = None \<Longrightarrow> find_fence cs = None"
  by (simp split: if_splits)

lemma find_fence_append_None: "find_fence (p @ t) = None \<Longrightarrow> find_fence t = None"
  by (induction p) (auto dest: find_fence_Cons_None simp del: find_fence.simps)

lemma fences_find_fence_None:
  "k \<le> 2 \<Longrightarrow> find_fence (replicate k (CHR ''`'') @ d) = None \<Longrightarrow> count_fences k d = 0"
proof (induction d arbitrary: k)
  case Nil
  show ?case by simp
next
  case (Cons c d)
  show ?case
  proof (cases "c = CHR ''`''")
    case False
    from Cons(3) have "find_fence d = None"
      using find_fence_append_None [of "replicate k (CHR ''`'') @ [c]" d] by simp
    with Cons(1) [of 0] False show ?thesis by simp
  next
    case True
    show ?thesis
    proof (cases "k = 2")
      case k: True
      with Cons(3) True show ?thesis by (simp add: numeral_2_eq_2)
    next
      case False
      with Cons(2) have k: "Suc k \<le> 2" by simp
      have "replicate k (CHR ''`'') @ c # d = replicate (Suc k) (CHR ''`'') @ d"
        using True by (simp add: replicate_app_Cons_same)
      with Cons(3) have "find_fence (replicate (Suc k) (CHR ''`'') @ d) = None"
        by (simp only:)
      from Cons(1) [OF k this] have "count_fences (Suc k) d = 0" .
      with True False Cons(2) show ?thesis by simp
    qed
  qed
qed

lemma fences_find_fence_Some: "find_fence d = Some r \<Longrightarrow> 1 \<le> count_fences k d"
proof (induction d arbitrary: k)
  case Nil
  then show ?case by simp
next
  case (Cons c d)
  show ?case
  proof (cases "prefix ''```'' (c # d)")
    case True
    then obtain r' where "c # d = ''```'' @ r'" by (auto simp: prefix_def)
    then have d: "c = CHR ''`''" "d = ''``'' @ r'" by simp_all
    show ?thesis
      unfolding d by (cases "2 \<le> k"; cases "k = 0") auto
  next
    case False
    with Cons(2) have "find_fence d = Some r" by (simp only: find_fence.simps if_False)
    from Cons(1) [OF this, of 0] Cons(1) [OF this, of "Suc k"] show ?thesis by simp
  qed
qed

lemma fences_match_fence:
  assumes "match_fence s = Some r"
  shows "2 \<le> count_fences 0 s"
proof -
  from assms obtain d where s: "s = ''```'' @ d" and d: "find_fence d = Some r"
    by (auto simp: match_fence_def prefix_def split: if_splits)
  from fences_find_fence_Some [OF d, of 0] show ?thesis by (simp add: s)
qed

lemma re_sub_fence_fixed: "count_fences 0 s \<le> 1 \<Longrightarrow> re_sub_fence s = s"
proof (induction s)
  case Nil
  show ?case by simp
next
  case (Cons c cs)
  have "match_fence (c # cs) = None"
  proof (cases "match_fence (c # cs)")
    case (Some r)
    from fences_match_fence [OF this] Cons(2) show ?thesis by simp
  qed simp
  moreover have "count_fences 0 cs \<le> 1" using fences_Cons_le [of cs c] Cons(2) by simp
  ultimately show ?case using Cons(1) by simp
qed

lemma re_sub_fence_two_ticks:
  assumes "prefix ''``'' (re_sub_fence cs)"
  shows "prefix ''``'' cs"
proof (cases cs)
  case Nil
  with assms show ?thesis by simp
next
  case (Cons x cs')
  show ?thesis
  proof (cases "x = CHR ''`''")
    case False
    with assms Cons show ?thesis by (simp add: match_fence_not_tick)
  next
    case x: True
    show ?thesis
    proof (cases cs')
      case Nil
      with assms Cons x show ?thesis by (simp add: match_fence_def)
    next
      case c2: (Cons y cs'')
      show ?thesis
      proof (cases "y = CHR ''`''")
        case True
        with x Cons c2 show ?thesis by simp
      next
        case False
        then have "match_fence (x # y # cs'') = None" "match_fence (y # cs'') = None"
          by (simp_all add: match_fence_def)
        with assms Cons c2 False show ?thesis by simp
      qed
    qed
  qed
qed

lemma fences_one_pending: "\<not> prefix ''``'' s \<Longrightarrow> count_fences (Suc 0) s = count_fences 0 s"
proof (cases s)
  case Nil
  then show ?thesis by simp
next
  case (Cons x s')
  assume np: "\<not> prefix ''``'' s"
  show ?thesis
  proof (cases s')
    case Nil
    with Cons show ?thesis by simp
  next
    case c2: (Cons y s'')
    with Cons np show ?thesis by (auto simp: numeral_2_eq_2)
  qed
qed

lemma fences_re_sub_fence: "count_fences 0 (re_sub_fence s) \<le> 1"
proof (induction s rule: re_sub_fence.induct)
  case 1
  show ?case by simp
next
  case (2 c cs)
  show ?case
  proof (cases "match_fence (c # cs)")
    case (Some rest)
    from 2(2) [OF Some] Some show ?thesis by simp
  next
    case None
    then have out: "re_sub_fence (c # cs) = c # re_sub_fence cs" by simp
    from 2(1) [OF None] have ih: "count_fences 0 (re_sub_fence cs) \<le> 1" .
    show ?thesis
    proof (cases "c = CHR ''`''")
      case False
      with ih show ?thesis unfolding out by simp
    next
      case True
      show ?thesis
      proof (cases "prefix ''``'' cs")
        case False
        then have "\<not> prefix ''``'' (re_sub_fence cs)" using re_sub_fence_two_ticks by blast
        from fences_one_pending [OF this] ih True show ?thesis unfolding out by simp
      next
        case p: True
        then obtain d where cs: "cs = ''``'' @ d" by (auto simp: prefix_def)
        from None True have "find_fence d = None" by (simp add: match_fence_def cs)
        then have d0: "count_fences 0 d = 0" using fences_find_fence_None [of 0 d] by simp
        have "count_fences 2 d \<le> Suc (count_fences 0 d)" using fences_mono [of d] by simp
        with d0 have "count_fences 0 cs \<le> 1" by (simp add: cs numeral_2_eq_2)
        then have "re_sub_fence cs = cs" by (rule re_sub_fence_fixed)
        with d0 True show ?thesis unfolding out by (simp add: cs numeral_2_eq_2)
      qed
    qed
  qed
qed

subsection \<open>The number of fences through the steps\<close>

text \<open>
  No step after \<open>re_sub_fence\<close> brings in a fence: the output of \<open>clean_sql\<close>
  holds at most one.
\<close>

lemma tick_not_space: "\<not> isspace (CHR ''`'')"
  by (simp add: isspace_def)

lemma tick_not_linebreak: "\<not> islinebreak (CHR ''`'')"
  by (simp add: islinebreak_def)

lemma fences_str_strip: "count_fences 0 (str_strip s) = count_fences 0 s"
proof -
  from str_strip_decomp [of s] obtain t1 t2 where
    s: "s = t1 @ str_strip s @ t2" and t1: "\<forall>c\<in>set t1. isspace c" and t2: "\<forall>c\<in>set t2. isspace c"
    by blast
  from t1 t2 tick_not_space have n1: "CHR ''`'' \<notin> set t1" and n2: "CHR ''`'' \<notin> set t2"
    by blast+
  have "count_fences 0 (t1 @ str_strip s @ t2) = count_fences 0 (str_strip s @ t2)"
    using fences_append_no_tick [OF n1, of 0 "str_strip s @ t2"] by (cases "t1 = []") simp_all
  also have "\<dots> = count_fences 0 (str_strip s) + count_fences 0 t2"
    using n2 by (intro fences_append) (cases t2; auto)
  also have "\<dots> = count_fences 0 (str_strip s)" using fences_no_tick [OF n2] by simp
  finally show ?thesis using s by simp
qed

lemma fences_first_statement:
  "count_fences 0 (if CHR '';'' \<in> set s then takeWhile (\<lambda>c. c \<noteq> CHR '';'') s @ '';'' else s) \<le> count_fences 0 s"
proof (cases "CHR '';'' \<in> set s")
  case False
  then show ?thesis by simp
next
  case True
  let ?p = "takeWhile (\<lambda>c. c \<noteq> CHR '';'') s"
  let ?d = "dropWhile (\<lambda>c. c \<noteq> CHR '';'') s"
  from True have "?d \<noteq> []" by simp
  then have "hd ?d = CHR '';''" using hd_dropWhile [of "\<lambda>c. c \<noteq> CHR '';''" s] by simp
  then have "count_fences 0 (?p @ ?d) = count_fences 0 ?p + count_fences 0 ?d" by (intro fences_append) simp
  then have "count_fences 0 ?p \<le> count_fences 0 s" by simp
  moreover have "count_fences 0 (?p @ '';'') = count_fences 0 ?p + count_fences 0 '';''" by (intro fences_append) simp
  ultimately show ?thesis using True by simp
qed

lemma fences_str_join: "count_fences 0 (str_join ''\<newline>'' ks) = sum_list (map (count_fences 0) ks)"
proof (induction "''\<newline>''" ks rule: str_join.induct)
  case 1
  show ?case by simp
next
  case (2 k)
  show ?case by simp
next
  case (3 k k' ks)
  have "count_fences 0 (k @ CHR ''\<newline>'' # str_join ''\<newline>'' (k' # ks))
      = count_fences 0 k + count_fences 0 (CHR ''\<newline>'' # str_join ''\<newline>'' (k' # ks))"
    by (intro fences_append) simp
  with 3 show ?case by simp
qed

lemma fences_skip_break:
  "s = [] \<or> islinebreak (hd s) \<Longrightarrow> count_fences 0 (skip_break s) = count_fences 0 s"
  using tick_not_linebreak
  by (induction s rule: skip_break.induct) (auto simp: islinebreak_def)

lemma fences_str_splitlines: "sum_list (map (count_fences 0) (str_splitlines s)) = count_fences 0 s"
proof (induction s rule: str_splitlines.induct)
  case 1
  show ?case by simp
next
  case (2 c cs)
  define s where "s = c # cs"
  define d where "d = dropWhile nb s"
  have sne: "s \<noteq> []" by (simp add: s_def)
  have brk: "d = [] \<or> islinebreak (hd d)"
    using hd_dropWhile [of nb s] by (auto simp: d_def)
  then have "d = [] \<or> hd d \<noteq> CHR ''`''" using tick_not_linebreak by auto
  then have "count_fences 0 (takeWhile nb s @ d) = count_fences 0 (takeWhile nb s) + count_fences 0 d"
    by (rule fences_append)
  then have "count_fences 0 s = count_fences 0 (takeWhile nb s) + count_fences 0 d" by (simp add: d_def)
  moreover have "count_fences 0 (skip_break d) = count_fences 0 d" using brk by (rule fences_skip_break)
  moreover have "sum_list (map (count_fences 0) (str_splitlines (skip_break d))) = count_fences 0 (skip_break d)"
    using 2 [OF refl refl] by (simp add: d_def s_def)
  ultimately show ?case
    unfolding s_def [symmetric] using str_splitlines_unfold [OF sne] by (simp add: d_def)
qed

lemma fences_filter_lines: "count_fences 0 (filter_lines t) \<le> count_fences 0 t"
proof -
  have "sum_list (map (count_fences 0) (filter keeps_line (str_splitlines t)))
      \<le> sum_list (map (count_fences 0) (str_splitlines t))"
    by (rule sum_list_filter_le_nat)
  then show ?thesis
    by (simp add: filter_lines_def line_loop_filter fences_str_join fences_str_splitlines)
qed

lemma match_icase_split:
  "match_icase p s = Some r \<Longrightarrow> \<exists>m. s = m @ r \<and> map lower_char m = p"
proof (induction p s rule: match_icase.induct)
  case (1 s)
  then show ?case by simp
next
  case (2 p ps)
  then show ?case by simp
next
  case (3 p ps c cs)
  from 3(2) have c: "lower_char c = p" and "match_icase ps cs = Some r"
    by (simp_all split: if_splits)
  from 3(1) [OF this] obtain m where "cs = m @ r" "map lower_char m = ps" by blast
  with c have "c # cs = (c # m) @ r \<and> map lower_char (c # m) = p # ps" by simp
  then show ?case by (rule exI)
qed

lemma lower_char_tick: "lower_char (CHR ''`'') = CHR ''`''"
  by (simp add: lower_char_def)

lemma match_icase_no_tick:
  assumes "map lower_char m = p" and "CHR ''`'' \<notin> set p"
  shows "CHR ''`'' \<notin> set m"
proof
  assume "CHR ''`'' \<in> set m"
  then have "lower_char (CHR ''`'') \<in> set (map lower_char m)" by (simp only: set_map) blast
  with assms lower_char_tick show False by simp
qed

lemma match_order_by_match:
  assumes "match_order_by s = Some rest"
  shows "\<exists>m. s = m @ rest \<and> m \<noteq> [] \<and> CHR ''`'' \<notin> set m"
proof -
  from assms obtain w ws where a: "match_icase ''order by'' s = Some (w # ws)"
    and w: "isspace w"
    and b: "match_icase ''order by'' (dropWhile isspace ws) = Some rest"
    by (auto simp: match_order_by_def split: option.splits list.splits if_splits)
  from match_icase_split [OF a] obtain m1 where
    "s = m1 @ w # ws \<and> map lower_char m1 = ''order by''" ..
  then have m1: "s = m1 @ w # ws" "map lower_char m1 = ''order by''"
    by (rule conjunct1, rule conjunct2)
  from match_icase_split [OF b] obtain m2 where
    "dropWhile isspace ws = m2 @ rest \<and> map lower_char m2 = ''order by''" ..
  then have m2: "dropWhile isspace ws = m2 @ rest" "map lower_char m2 = ''order by''"
    by (rule conjunct1, rule conjunct2)
  define m where "m = m1 @ w # takeWhile isspace ws @ m2"
  have eq: "takeWhile isspace ws @ m2 @ rest = ws"
    using takeWhile_dropWhile_id [of isspace ws] unfolding m2(1) .
  have "m @ rest = m1 @ w # (takeWhile isspace ws @ m2 @ rest)" by (simp add: m_def)
  also have "\<dots> = m1 @ w # ws" by (simp only: eq)
  also have "\<dots> = s" by (rule m1(1) [symmetric])
  finally have "m @ rest = s" .
  moreover have "m \<noteq> []" by (simp add: m_def)
  moreover have "CHR ''`'' \<notin> set m"
  proof -
    have "CHR ''`'' \<notin> set m1"
      using m1(2) by (rule match_icase_no_tick) simp
    moreover have "CHR ''`'' \<notin> set m2"
      using m2(2) by (rule match_icase_no_tick) simp
    moreover have "CHR ''`'' \<notin> set (takeWhile isspace ws)"
      using tick_not_space by (auto dest: set_takeWhileD)
    moreover have "w \<noteq> CHR ''`''" using w tick_not_space by auto
    ultimately show ?thesis by (simp add: m_def)
  qed
  ultimately have "s = m @ rest \<and> m \<noteq> [] \<and> CHR ''`'' \<notin> set m" by simp
  then show ?thesis by (rule exI)
qed

lemma fences_re_sub_order_by: "count_fences k (re_sub_order_by s) = count_fences k s"
proof (induction s arbitrary: k rule: re_sub_order_by.induct)
  case 1
  show ?case by simp
next
  case (2 c cs)
  show ?case
  proof (cases "match_order_by (c # cs)")
    case None
    with 2(1) [OF None] show ?thesis by simp
  next
    case (Some rest)
    from match_order_by_match [OF Some] obtain m where
      m: "c # cs = m @ rest" "m \<noteq> []" "CHR ''`'' \<notin> set m"
      by blast
    have out: "re_sub_order_by (c # cs) = ''ORDER BY'' @ re_sub_order_by rest"
      using Some by simp
    have "count_fences k (''ORDER BY'' @ re_sub_order_by rest) = count_fences 0 (re_sub_order_by rest)"
      by (intro fences_append_no_tick) simp_all
    also have "\<dots> = count_fences 0 rest" by (rule 2(2) [OF Some])
    also have "\<dots> = count_fences k (m @ rest)" using fences_append_no_tick [OF m(3,2)] by simp
    finally have "count_fences k (re_sub_order_by (c # cs)) = count_fences k (m @ rest)" unfolding out .
    then show ?thesis by (simp only: m(1))
  qed
qed

lemma fences_clean_sql:
  assumes "clean_sql x = Inr y"
  shows "count_fences 0 y \<le> 1"
proof -
  let ?s = "re_sub_fence x"
  let ?stmt = "if CHR '';'' \<in> set ?s then takeWhile (\<lambda>c. c \<noteq> CHR '';'') ?s @ '';'' else ?s"
  from assms have "y = str_strip (re_sub_order_by (filter_lines (str_strip ?stmt)))"
    by (simp add: clean_sql_eq Let_def)
  then have "count_fences 0 y = count_fences 0 (filter_lines (str_strip ?stmt))"
    by (simp add: fences_str_strip fences_re_sub_order_by)
  also have "\<dots> \<le> count_fences 0 (str_strip ?stmt)" by (rule fences_filter_lines)
  also have "\<dots> = count_fences 0 ?stmt" by (rule fences_str_strip)
  also have "\<dots> \<le> count_fences 0 ?s" by (rule fences_first_statement)
  also have "\<dots> \<le> 1" by (rule fences_re_sub_fence)
  finally show ?thesis .
qed

section \<open>The claims about \<open>clean_sql\<close>\<close>

text \<open>
  C1 fails as stated: \<open>clean_sql\<close> removes a fenced block whole, the enclosed text
  with the fences, so the fenced statement of Scenario 2 is lost and the output is empty
  (with line feeds between the lines, and as well with the two characters backslash and
  \<open>n\<close> there).
\<close>

theorem clean_sql_fenced_statement_lost:
  "clean_sql ''```sql\<newline>SELECT a FROM cars;\<newline>extra, junk, line\<newline>```'' = Inr [] \<and>
   clean_sql ''```sql\<newline>SELECT a FROM cars;\<newline>extra, junk, line\<newline>```'' \<noteq> Inr ''SELECT a FROM cars;'' \<and>
   clean_sql (''```sql'' @ [CHR 0x5C] @ ''nSELECT a FROM cars;'' @ [CHR 0x5C] @ ''nextra, junk, line'' @ [CHR 0x5C] @ ''n```'') = Inr []"
  by code_simp

text \<open>
  C1, amended: a fenced block, from a triple backtick to the next one, is removed together
  with the text it encloses: the output is that of the input without the block. (Here the
  text before the block and the enclosed text hold no backtick, so that the two fences are
  the block's own.)
\<close>

theorem clean_sql_drops_fenced_block:
  assumes "CHR ''`'' \<notin> set a" and "CHR ''`'' \<notin> set b"
  shows "clean_sql (a @ ''```'' @ b @ ''```'' @ c) = clean_sql (a @ c)"
  using re_sub_fence_block [OF assms] re_sub_fence_no_tick [OF assms(1)]
  by (simp add: clean_sql_def)

theorem clean_sql_drops_fenced_block_witness:
  "clean_sql (''SELECT a '' @ ''```'' @ ''sql junk'' @ ''```'' @ ''FROM cars;'') = Inr ''SELECT a FROM cars;''"
proof -
  have "clean_sql (''SELECT a '' @ ''FROM cars;'') = Inr ''SELECT a FROM cars;''"
    by code_simp
  moreover have "CHR ''`'' \<notin> set ''SELECT a ''" and "CHR ''`'' \<notin> set ''sql junk''"
    by simp_all
  ultimately show ?thesis
    using clean_sql_drops_fenced_block [of "''SELECT a ''" "''sql junk''" "''FROM cars;''"]
    by simp
qed

text \<open>
  C2 fails as stated: of three ORDER BY in a row one application collapses the first two
  only, and a second application collapses again.
\<close>

theorem clean_sql_not_idempotent:
  "clean_sql ''SELECT a FROM cars ORDER BY ORDER BY ORDER BY a;'' =
     Inr ''SELECT a FROM cars ORDER BY ORDER BY a;'' \<and>
   clean_sql ''SELECT a FROM cars ORDER BY ORDER BY a;'' = Inr ''SELECT a FROM cars ORDER BY a;''"
  by code_simp

text \<open>
  C2, amended: when the output of one application holds no doubled ORDER BY any more, so
  that the collapse finds nothing in it, a second application returns that output unchanged.
\<close>

theorem clean_sql_idempotent_once_collapsed:
  assumes "clean_sql x = Inr y" and "re_sub_order_by y = y"
  shows "clean_sql y = Inr y"
proof -
  have fence: "re_sub_fence y = y"
    using fences_clean_sql [OF assms(1)] by (rule re_sub_fence_fixed)
  from clean_sql_shape [of x] assms(1) obtain body where
    "CHR '';'' \<notin> set body" and "y = body \<or> y = body @ '';''"
    by (auto split: if_splits)
  then have stmt: "first_statement y = Inr y" by (rule first_statement_fixed)
  have "\<exists>t. y = str_strip (re_sub_order_by (filter_lines t))"
    using assms(1) unfolding clean_sql_eq by blast
  then obtain t where y: "y = str_strip (re_sub_order_by (filter_lines t))" ..
  then have strip: "str_strip y = y" by (simp add: str_strip_idem)
  have lines: "filter_lines y = y" unfolding y by (rule filter_lines_output)
  show ?thesis
    by (simp add: clean_sql_def fence stmt strip lines assms(2))
qed

theorem clean_sql_idempotent_once_collapsed_witness:
  "clean_sql ''SELECT a FROM cars ORDER BY ORDER BY a;'' = Inr ''SELECT a FROM cars ORDER BY a;'' \<and>
   clean_sql ''SELECT a FROM cars ORDER BY a;'' = Inr ''SELECT a FROM cars ORDER BY a;''"
proof -
  have once: "clean_sql ''SELECT a FROM cars ORDER BY ORDER BY a;'' = Inr ''SELECT a FROM cars ORDER BY a;''"
    by code_simp
  have "re_sub_order_by ''SELECT a FROM cars ORDER BY a;'' = ''SELECT a FROM cars ORDER BY a;''"
    by code_simp
  with once have "clean_sql ''SELECT a FROM cars ORDER BY a;'' = Inr ''SELECT a FROM cars ORDER BY a;''"
    by (rule clean_sql_idempotent_once_collapsed)
  with once show ?thesis by (rule conjI)
qed

text \<open>
  C3: the output holds at most one \<open>;\<close>, and a \<open>;\<close> that is present is the last
  character of the output.
\<close>

theorem clean_sql_single_statement:
  "\<exists>out. clean_sql sql = Inr out \<and> count_list out (CHR '';'') \<le> 1 \<and>
     (CHR '';'' \<in> set out \<longrightarrow> last out = CHR '';'')"
proof -
  from clean_sql_shape [of sql] obtain body where
    "CHR '';'' \<notin> set body"
    "clean_sql sql = Inr (if CHR '';'' \<in> set (re_sub_fence sql) then body @ '';'' else body)"
    by blast
  then show ?thesis
    by (cases "CHR '';'' \<in> set (re_sub_fence sql)") (simp_all add: count_list_0_iff)
qed

theorem clean_sql_single_statement_witness:
  "\<exists>out. clean_sql ''SELECT a FROM cars; SELECT b FROM cars;'' = Inr out \<and>
     CHR '';'' \<in> set out \<and> count_list out (CHR '';'') \<le> 1 \<and> last out = CHR '';''"
proof -
  have "clean_sql ''SELECT a FROM cars; SELECT b FROM cars;'' = Inr ''SELECT a FROM cars;''"
    by code_simp
  with clean_sql_single_statement [of "''SELECT a FROM cars; SELECT b FROM cars;''"]
  show ?thesis by simp
qed

text \<open>
  C5 fails as stated: an input with no \<open>;\<close> comes back with none.
\<close>

theorem clean_sql_unterminated:
  "clean_sql ''SELECT a FROM cars'' = Inr ''SELECT a FROM cars'' \<and>
   last ''SELECT a FROM cars'' \<noteq> CHR '';''"
  by code_simp

text \<open>
  C5, amended: the output ends with \<open>;\<close> exactly when the input, once its fenced
  blocks are removed, holds a \<open>;\<close>; otherwise the output holds no \<open>;\<close> at all.
\<close>

theorem clean_sql_terminator:
  "\<exists>out. clean_sql sql = Inr out \<and>
     (if CHR '';'' \<in> set (re_sub_fence sql) then out \<noteq> [] \<and> last out = CHR '';''
      else CHR '';'' \<notin> set out)"
proof -
  from clean_sql_shape [of sql] obtain body where
    "CHR '';'' \<notin> set body"
    "clean_sql sql = Inr (if CHR '';'' \<in> set (re_sub_fence sql) then body @ '';'' else body)"
    by blast
  then show ?thesis
    by (cases "CHR '';'' \<in> set (re_sub_fence sql)") simp_all
qed


text \<open>
  C7: \<open>clean_sql\<close> is total on strings. Its one step that can raise, the index
  \<open>[0]\<close> into the result of \<open>split\<close>, never does, so every input has an output;
  the empty input gives the empty string.
\<close>

theorem clean_sql_total:
  "(\<exists>out. clean_sql sql = Inr out) \<and> clean_sql [] = Inr []"
proof
  show "\<exists>out. clean_sql sql = Inr out"
    by (simp add: clean_sql_eq)
next
  show "clean_sql [] = Inr []"
    by (simp add: clean_sql_def first_statement_def filter_lines_def str_strip_def)
qed



text \<open>
  C10: \<open>clean_sql\<close> never lengthens its input.
\<close>

theorem clean_sql_never_longer: "\<exists>out. clean_sql sql = Inr out \<and> length out \<le> length sql"
proof -
  let ?s = "re_sub_fence sql"
  let ?stmt = "if CHR '';'' \<in> set ?s then takeWhile (\<lambda>c. c \<noteq> CHR '';'') ?s @ '';'' else ?s"
  let ?out = "str_strip (re_sub_order_by (filter_lines (str_strip ?stmt)))"
  have "length ?out \<le> length (re_sub_order_by (filter_lines (str_strip ?stmt)))"
    by (rule length_str_strip)
  also have "\<dots> \<le> length (filter_lines (str_strip ?stmt))" by (rule length_re_sub_order_by)
  also have "\<dots> \<le> length (str_strip ?stmt)" by (rule length_filter_lines)
  also have "\<dots> \<le> length ?stmt" by (rule length_str_strip)
  also have "\<dots> \<le> length ?s" using length_takeWhile_less [of "CHR '';''" ?s] by auto
  also have "\<dots> \<le> length sql" by (rule length_re_sub_fence)
  finally have "length ?out \<le> length sql" .
  moreover have "clean_sql sql = Inr ?out" by (simp add: clean_sql_eq Let_def)
  ultimately show ?thesis by blast
qed

section \<open>The claims about the pipeline\<close>





end
